theory Spec2Isabelle
  imports Complex_Main
begin

section \<open>Caesar cipher cryptanalysis: the two scripts as HOL functions\<close>

text \<open>
  The development embeds \<^verbatim>\<open>caesar_bruteforce.py\<close> and \<^verbatim>\<open>caesar_freq_decrypt.py\<close>.

  Scope of the model.
  \<^item> A Python character is a \<^typ>\<open>char\<close>: the code points 0..255 (ASCII and the Latin-1
    supplement). Python's \<^verbatim>\<open>str.islower\<close>, \<^verbatim>\<open>str.isupper\<close>, \<^verbatim>\<open>str.isalpha\<close> and
    \<^verbatim>\<open>str.upper\<close> are Unicode aware; the tables below are theirs on these 256 code
    points. Whatever is proved for every \<^typ>\<open>char\<close> is proved for these code points
    only. For a character of any code point the shift transform is \<open>shift_char_cp\<close>,
    which takes the answers of \<^verbatim>\<open>islower\<close> and \<^verbatim>\<open>isupper\<close> as arguments.
  \<^item> A Python \<^verbatim>\<open>float\<close> is an exact rational, or the sentinel \<^verbatim>\<open>float('inf')\<close>:
    rounding and overflow are not modelled, so a score of the model is the code's score
    up to rounding, and nothing here is a statement about the rounded value.
  \<^item> An exception is a value: every function that can raise returns \<open>error + 'a\<close>.
\<close>

subsection \<open>Python built-ins on the code points 0..255\<close>

datatype error = ValueError | TypeError | KeyError | IndexError

text \<open>\<^verbatim>\<open>ord(ch)\<close> of a single character.\<close>

definition ord :: "char \<Rightarrow> int" where
  "ord ch = of_char ch"

text \<open>\<^verbatim>\<open>ch.islower()\<close>: a-z, the ordinal indicators, micro sign, and the Latin-1 small letters.\<close>

definition islower :: "char \<Rightarrow> bool" where
  "islower ch =
     (let n = ord ch in
      (97 \<le> n \<and> n \<le> 122) \<or> n = 170 \<or> n = 181 \<or> n = 186 \<or>
      (223 \<le> n \<and> n \<le> 246) \<or> (248 \<le> n \<and> n \<le> 255))"

text \<open>\<^verbatim>\<open>ch.isupper()\<close>: A-Z and the Latin-1 capital letters.\<close>

definition isupper :: "char \<Rightarrow> bool" where
  "isupper ch =
     (let n = ord ch in
      (65 \<le> n \<and> n \<le> 90) \<or> (192 \<le> n \<and> n \<le> 214) \<or> (216 \<le> n \<and> n \<le> 222))"

text \<open>\<^verbatim>\<open>ch.isalpha()\<close>: the code points of general category L.\<close>

definition isalpha :: "char \<Rightarrow> bool" where
  "isalpha ch =
     (let n = ord ch in
      (65 \<le> n \<and> n \<le> 90) \<or> (97 \<le> n \<and> n \<le> 122) \<or> n = 170 \<or> n = 181 \<or> n = 186 \<or>
      (192 \<le> n \<and> n \<le> 214) \<or> (216 \<le> n \<and> n \<le> 246) \<or> (248 \<le> n \<and> n \<le> 255))"

text \<open>
  A Python string that need not stay below code point 256 is a list of code points.
  \<^verbatim>\<open>ch.upper()\<close> is such a string: the micro sign maps to U+039C, y with diaeresis to
  U+0178, and sharp s to the two characters \<^verbatim>\<open>'SS'\<close>.
\<close>

type_synonym pystr = "int list"

definition upper :: "char \<Rightarrow> pystr" where
  "upper ch =
     (let n = ord ch in
      if 97 \<le> n \<and> n \<le> 122 then [n - 32]
      else if n = 181 then [924]
      else if n = 223 then [83, 83]
      else if (224 \<le> n \<and> n \<le> 246) \<or> (248 \<le> n \<and> n \<le> 254) then [n - 32]
      else if n = 255 then [376]
      else [n])"

text \<open>\<^verbatim>\<open>ord(s)\<close> of a string: a \<^verbatim>\<open>TypeError\<close> unless the string has length one.\<close>

definition ord_str :: "pystr \<Rightarrow> error + int" where
  "ord_str s = (case s of [n] \<Rightarrow> Inr n | _ \<Rightarrow> Inl TypeError)"

text \<open>\<^verbatim>\<open>s.index(ch)\<close>: the first position of the character, or a \<^verbatim>\<open>ValueError\<close>.\<close>

primrec str_index :: "string \<Rightarrow> char \<Rightarrow> error + int" where
  "str_index [] ch = Inl ValueError"
| "str_index (x # xs) ch =
     (if x = ch then Inr 0
      else (case str_index xs ch of Inl e \<Rightarrow> Inl e | Inr i \<Rightarrow> Inr (i + 1)))"

text \<open>\<^verbatim>\<open>s[i]\<close>: a negative index counts from the end, an index out of range raises.\<close>

definition getitem :: "string \<Rightarrow> int \<Rightarrow> error + char" where
  "getitem s i =
     (if 0 \<le> i \<and> i < int (length s) then Inr (s ! nat i)
      else if - int (length s) \<le> i \<and> i < 0 then Inr (s ! nat (int (length s) + i))
      else Inl IndexError)"

text \<open>\<^verbatim>\<open>range(n)\<close>.\<close>

definition py_range :: "int \<Rightarrow> int list" where
  "py_range n = [0..n - 1]"

text \<open>\<^verbatim>\<open>xs[:n]\<close>: a negative bound counts from the end.\<close>

definition slice_to :: "'a list \<Rightarrow> int \<Rightarrow> 'a list" where
  "slice_to xs n = (if 0 \<le> n then take (nat n) xs else take (nat (int (length xs) + n)) xs)"

subsection \<open>caesar\_bruteforce.py\<close>

definition ALPHABET_LOWER :: string where
  "ALPHABET_LOWER = ''abcdefghijklmnopqrstuvwxyz''"

definition ALPHABET_UPPER :: string where
  "ALPHABET_UPPER = ''ABCDEFGHIJKLMNOPQRSTUVWXYZ''"

definition N :: int where
  "N = 26"

text \<open>\<^verbatim>\<open>shift_char\<close> of caesar\_bruteforce.py: the letter is looked up in the alphabet.\<close>

definition bf_shift_char :: "char \<Rightarrow> int \<Rightarrow> error + char" where
  "bf_shift_char ch shift =
     (if islower ch then
        (case str_index ALPHABET_LOWER ch of
           Inl e \<Rightarrow> Inl e
         | Inr idx \<Rightarrow> getitem ALPHABET_LOWER ((idx + shift) mod N))
      else if isupper ch then
        (case str_index ALPHABET_UPPER ch of
           Inl e \<Rightarrow> Inl e
         | Inr idx \<Rightarrow> getitem ALPHABET_UPPER ((idx + shift) mod N))
      else Inr ch)"

text \<open>\<^verbatim>\<open>caesar_shift\<close> of caesar\_bruteforce.py: the join stops at the first exception.\<close>

fun bf_caesar_shift :: "string \<Rightarrow> int \<Rightarrow> error + string" where
  "bf_caesar_shift [] shift = Inr []"
| "bf_caesar_shift (ch # text) shift =
     (case bf_shift_char ch shift of
        Inl e \<Rightarrow> Inl e
      | Inr c \<Rightarrow> (case bf_caesar_shift text shift of Inl e \<Rightarrow> Inl e | Inr cs \<Rightarrow> Inr (c # cs)))"

text \<open>
  \<^verbatim>\<open>bruteforce_caesar\<close> is a generator. Its model is what a consumer that runs it to
  the end sees: the pairs yielded, in order, and the exception that ended the iteration,
  if one did.
\<close>

fun bruteforce_loop :: "string \<Rightarrow> int list \<Rightarrow> (int \<times> string) list \<times> error option" where
  "bruteforce_loop ciphertext [] = ([], None)"
| "bruteforce_loop ciphertext (shift # rest) =
     (case bf_caesar_shift ciphertext shift of
        Inl e \<Rightarrow> ([], Some e)
      | Inr plaintext \<Rightarrow>
          (case bruteforce_loop ciphertext rest of
             (pairs, stop) \<Rightarrow> ((shift, plaintext) # pairs, stop)))"

definition bruteforce_caesar :: "string \<Rightarrow> (int \<times> string) list \<times> error option" where
  "bruteforce_caesar ciphertext = bruteforce_loop ciphertext (py_range N)"

subsection \<open>caesar\_freq\_decrypt.py\<close>

text \<open>A float: an exact rational or positive infinity, ordered as Python compares them.\<close>

datatype float = Finite rat | PosInf

instantiation float :: linorder
begin

fun less_eq_float :: "float \<Rightarrow> float \<Rightarrow> bool" where
  "less_eq_float (Finite x) (Finite y) = (x \<le> y)"
| "less_eq_float (Finite x) PosInf = True"
| "less_eq_float PosInf (Finite y) = False"
| "less_eq_float PosInf PosInf = True"

definition less_float :: "float \<Rightarrow> float \<Rightarrow> bool" where
  "less_float a b = (a \<le> b \<and> \<not> b \<le> (a::float))"

instance
proof
  fix x y z :: float
  show "(x < y) = (x \<le> y \<and> \<not> y \<le> x)" by (simp add: less_float_def)
  show "x \<le> x" by (cases x) simp_all
  show "x \<le> y \<Longrightarrow> y \<le> z \<Longrightarrow> x \<le> z" by (cases x; cases y; cases z) simp_all
  show "x \<le> y \<Longrightarrow> y \<le> x \<Longrightarrow> x = y" by (cases x; cases y) simp_all
  show "x \<le> y \<or> y \<le> x" by (cases x; cases y) auto
qed

end

definition ENGLISH_FREQ :: "(char \<times> rat) list" where
  "ENGLISH_FREQ =
     [(CHR ''A'', 8167 / 1000), (CHR ''B'', 1492 / 1000), (CHR ''C'', 2782 / 1000),
      (CHR ''D'', 4253 / 1000), (CHR ''E'', 12702 / 1000), (CHR ''F'', 2228 / 1000),
      (CHR ''G'', 2015 / 1000), (CHR ''H'', 6094 / 1000), (CHR ''I'', 6966 / 1000),
      (CHR ''J'', 153 / 1000), (CHR ''K'', 772 / 1000), (CHR ''L'', 4025 / 1000),
      (CHR ''M'', 2406 / 1000), (CHR ''N'', 6749 / 1000), (CHR ''O'', 7507 / 1000),
      (CHR ''P'', 1929 / 1000), (CHR ''Q'', 95 / 1000), (CHR ''R'', 5987 / 1000),
      (CHR ''S'', 6327 / 1000), (CHR ''T'', 9056 / 1000), (CHR ''U'', 2758 / 1000),
      (CHR ''V'', 978 / 1000), (CHR ''W'', 2361 / 1000), (CHR ''X'', 150 / 1000),
      (CHR ''Y'', 1974 / 1000), (CHR ''Z'', 74 / 1000)]"

definition ALPHABET :: string where
  "ALPHABET = ''ABCDEFGHIJKLMNOPQRSTUVWXYZ''"

text \<open>
  \<^verbatim>\<open>shift_char\<close> of caesar\_freq\_decrypt.py: character arithmetic. The argument of
  \<^verbatim>\<open>chr\<close> lies in 97..122 or 65..90, so \<^verbatim>\<open>chr\<close> does not raise and its result is a
  \<^typ>\<open>char\<close>.
\<close>

definition shift_char :: "char \<Rightarrow> int \<Rightarrow> char" where
  "shift_char ch shift =
     (if islower ch then char_of ((ord ch - ord CHR ''a'' + shift) mod N + ord CHR ''a'')
      else if isupper ch then char_of ((ord ch - ord CHR ''A'' + shift) mod N + ord CHR ''A'')
      else ch)"

definition caesar_shift :: "string \<Rightarrow> int \<Rightarrow> string" where
  "caesar_shift text shift = map (\<lambda>ch. shift_char ch shift) text"

text \<open>
  The same \<^verbatim>\<open>shift_char\<close> (lines 28-33) for a character of any code point \<open>cp\<close>.
  The character database belongs to the Python runtime, not to the repository: what
  \<^verbatim>\<open>ch.islower()\<close> and \<^verbatim>\<open>ch.isupper()\<close> answer for the character are the arguments
  \<open>is_lower\<close> and \<open>is_upper\<close>. The result is the code point of the character returned.
\<close>

definition shift_char_cp :: "bool \<Rightarrow> bool \<Rightarrow> int \<Rightarrow> int \<Rightarrow> int" where
  "shift_char_cp is_lower is_upper cp shift =
     (if is_lower then (cp - ord CHR ''a'' + shift) mod N + ord CHR ''a''
      else if is_upper then (cp - ord CHR ''A'' + shift) mod N + ord CHR ''A''
      else cp)"

text \<open>
  A \<^verbatim>\<open>Counter\<close> is an association list in insertion order (the order
  \<^verbatim>\<open>most_common\<close> keeps among equal counts); its keys are distinct.
\<close>

type_synonym counter = "(pystr \<times> nat) list"

fun counter_incr :: "pystr \<Rightarrow> counter \<Rightarrow> counter" where
  "counter_incr k [] = [(k, 1)]"
| "counter_incr k ((k', v) # c) = (if k = k' then (k', v + 1) # c else (k', v) # counter_incr k c)"

definition Counter :: "pystr list \<Rightarrow> counter" where
  "Counter elems = foldl (\<lambda>c k. counter_incr k c) [] elems"

text \<open>\<^verbatim>\<open>counts.get(key, default)\<close>.\<close>

definition counter_get :: "counter \<Rightarrow> pystr \<Rightarrow> nat \<Rightarrow> nat" where
  "counter_get c k d = (case map_of c k of None \<Rightarrow> d | Some v \<Rightarrow> v)"

text \<open>
  \<^verbatim>\<open>counts.most_common()\<close>: the items sorted by count, largest first, by a stable sort.
\<close>

definition most_common :: "counter \<Rightarrow> (pystr \<times> nat) list" where
  "most_common c = sort_key (\<lambda>p. - int (snd p)) c"

definition count_letters :: "string \<Rightarrow> counter \<times> nat" where
  "count_letters text =
     (let cleaned = map upper (filter isalpha text);
          c = Counter cleaned;
          n_total = sum_list (map snd c)
      in (c, n_total))"

text \<open>The loop of \<^verbatim>\<open>chi_squared_score\<close> over the alphabet; a missing table entry is a \<^verbatim>\<open>KeyError\<close>.\<close>

fun chi_loop :: "counter \<Rightarrow> nat \<Rightarrow> string \<Rightarrow> rat \<Rightarrow> error + rat" where
  "chi_loop counts n_total [] score = Inr score"
| "chi_loop counts n_total (letter # rest) score =
     (let observed = counter_get counts [ord letter] 0 in
      case map_of ENGLISH_FREQ letter of
        None \<Rightarrow> Inl KeyError
      | Some freq \<Rightarrow>
          (let expected = freq * of_nat n_total / 100;
               diff = of_nat observed - expected
           in chi_loop counts n_total rest
                (score + (diff * diff) / (if expected > 0 then expected else 1 / 10 ^ 9))))"

definition chi_squared_score :: "string \<Rightarrow> error + float" where
  "chi_squared_score text =
     (case count_letters text of
        (counts, n_total) \<Rightarrow>
          if n_total = 0 then Inr PosInf
          else (case chi_loop counts n_total ALPHABET 0 of
                  Inl e \<Rightarrow> Inl e
                | Inr score \<Rightarrow> Inr (Finite score)))"

text \<open>The inner loop of the most-frequent-letter heuristic, over the target letters.\<close>

type_synonym mf_candidate = "pystr \<times> char \<times> int \<times> string"

fun mf_inner ::
  "string \<Rightarrow> pystr \<Rightarrow> string \<Rightarrow> mf_candidate list \<times> (pystr \<times> char) set \<Rightarrow>
   error + (mf_candidate list \<times> (pystr \<times> char) set)" where
  "mf_inner ciphertext cipher_most [] st = Inr st"
| "mf_inner ciphertext cipher_most (target # rest) (mf_candidates, mapped) =
     (if (cipher_most, target) \<in> mapped then
        mf_inner ciphertext cipher_most rest (mf_candidates, mapped)
      else
        (case ord_str cipher_most of
           Inl e \<Rightarrow> Inl e
         | Inr oc \<Rightarrow>
             (let shift = (ord target - oc) mod N;
                  plaintext = caesar_shift ciphertext shift
              in mf_inner ciphertext cipher_most rest
                   (mf_candidates @ [(cipher_most, target, shift, plaintext)],
                    insert (cipher_most, target) mapped))))"

definition common_targets :: string where
  "common_targets = ''ETAOINSRHL''"

text \<open>The outer loop, over the ciphertext letters; the cap is tested after the inner loop.\<close>

fun mf_outer ::
  "string \<Rightarrow> pystr list \<Rightarrow> mf_candidate list \<times> (pystr \<times> char) set \<Rightarrow>
   error + (mf_candidate list \<times> (pystr \<times> char) set)" where
  "mf_outer ciphertext [] st = Inr st"
| "mf_outer ciphertext (cipher_most # rest) st =
     (case mf_inner ciphertext cipher_most common_targets st of
        Inl e \<Rightarrow> Inl e
      | Inr (mf_candidates, mapped) \<Rightarrow>
          if length mf_candidates \<ge> 20 then Inr (mf_candidates, mapped)
          else mf_outer ciphertext rest (mf_candidates, mapped))"

text \<open>The scoring loop over the 26 shifts.\<close>

fun score_loop ::
  "string \<Rightarrow> int list \<Rightarrow> (int \<times> float \<times> string) list \<Rightarrow>
   error + (int \<times> float \<times> string) list" where
  "score_loop ciphertext [] shift_scores = Inr shift_scores"
| "score_loop ciphertext (s # rest) shift_scores =
     (let candidate = caesar_shift ciphertext s in
      case chi_squared_score candidate of
        Inl e \<Rightarrow> Inl e
      | Inr score \<Rightarrow> score_loop ciphertext rest (shift_scores @ [(s, score, candidate)]))"

record candidates =
  most_freq_guesses :: "mf_candidate list"
  chi_squared_ranking :: "(int \<times> float \<times> string) list"

definition freq_based_candidates :: "string \<Rightarrow> int \<Rightarrow> error + candidates" where
  "freq_based_candidates ciphertext top_n =
     (case count_letters ciphertext of
        (counts, n_total) \<Rightarrow>
          (case (if n_total = 0 then Inr []
                 else (case mf_outer ciphertext (map fst (most_common counts)) ([], {}) of
                         Inl e \<Rightarrow> Inl e
                       | Inr (mf_candidates, mapped) \<Rightarrow> Inr mf_candidates)) of
             Inl e \<Rightarrow> Inl e
           | Inr mf_candidates \<Rightarrow>
               (case score_loop ciphertext (py_range N) [] of
                  Inl e \<Rightarrow> Inl e
                | Inr shift_scores \<Rightarrow>
                    Inr \<lparr>most_freq_guesses = mf_candidates,
                         chi_squared_ranking =
                           slice_to (sort_key (\<lambda>x. fst (snd x)) shift_scores) top_n\<rparr>)))"

subsection \<open>Notions used to state the properties\<close>

text \<open>
  The quantities of the chi-squared statistic as the code computes them: the total that
  \<^verbatim>\<open>count_letters\<close> returns (the number of characters that \<^verbatim>\<open>isalpha\<close> accepts,
  which is not the number of letters A-Z of the text), a letter's case-insensitive count,
  the reference frequency, the expected count and the sum over the 26 letters.
\<close>

definition total_letters :: "string \<Rightarrow> nat" where
  "total_letters text = length (filter isalpha text)"

definition lowercase_of :: "char \<Rightarrow> char" where
  "lowercase_of letter = char_of (ord letter + 32)"

definition observed_count :: "string \<Rightarrow> char \<Rightarrow> nat" where
  "observed_count text letter =
     length (filter (\<lambda>c. c = letter \<or> c = lowercase_of letter) text)"

definition referenceFrequency :: "char \<Rightarrow> rat" where
  "referenceFrequency letter =
     (case map_of ENGLISH_FREQ letter of None \<Rightarrow> 0 | Some freq \<Rightarrow> freq)"

definition expected_count :: "string \<Rightarrow> char \<Rightarrow> rat" where
  "expected_count text letter = referenceFrequency letter * of_nat (total_letters text) / 100"

definition chi_squared_sum :: "string \<Rightarrow> rat" where
  "chi_squared_sum text =
     (\<Sum>letter\<leftarrow>ALPHABET.
        (of_nat (observed_count text letter) - expected_count text letter)\<^sup>2
          / expected_count text letter)"

text \<open>The score of a text, and the scored candidate of a shift.\<close>

definition score_of :: "string \<Rightarrow> float" where
  "score_of text = (if total_letters text = 0 then PosInf else Finite (chi_squared_sum text))"

definition scored :: "string \<Rightarrow> int \<Rightarrow> int \<times> float \<times> string" where
  "scored ciphertext s = (s, score_of (caesar_shift ciphertext s), caesar_shift ciphertext s)"

text \<open>The 26 scored candidates, sorted by score and cut to the first \<open>top_n\<close>.\<close>

definition ranking :: "string \<Rightarrow> int \<Rightarrow> (int \<times> float \<times> string) list" where
  "ranking ciphertext top_n =
     slice_to (sort_key (\<lambda>x. fst (snd x)) (map (scored ciphertext) [0..25])) top_n"

text \<open>
  The heuristic's entry for a ciphertext letter (given by its code point) and a target, the
  block of the ten entries of one ciphertext letter, and the ciphertext letters the
  heuristic gets to: the two most frequent ones.
\<close>

definition mf_entry :: "string \<Rightarrow> int \<Rightarrow> char \<Rightarrow> mf_candidate" where
  "mf_entry ciphertext oc target =
     ([oc], target, (ord target - oc) mod N, caesar_shift ciphertext ((ord target - oc) mod N))"

definition mf_block :: "string \<Rightarrow> pystr \<Rightarrow> mf_candidate list" where
  "mf_block ciphertext k =
     (case k of [oc] \<Rightarrow> map (mf_entry ciphertext oc) common_targets | _ \<Rightarrow> [])"

definition heuristic_letters :: "string \<Rightarrow> pystr list" where
  "heuristic_letters ciphertext =
     (if total_letters ciphertext = 0 then []
      else take 2 (map fst (most_common (fst (count_letters ciphertext)))))"

text \<open>
  A character whose case, if it has one, is that of an ASCII letter: every character but
  the cased letters of the Latin-1 supplement.
\<close>

definition ascii_cased :: "char \<Rightarrow> bool" where
  "ascii_cased ch = ((islower ch \<longrightarrow> ord ch \<le> 122) \<and> (isupper ch \<longrightarrow> ord ch \<le> 90))"

section \<open>Characters and the two alphabets\<close>

lemma py_range_N: "py_range N = [0..25]"
  by (simp add: py_range_def N_def)

lemma ord_nat: "ord ch = int (of_char ch)"
  by (simp add: ord_def of_nat_of_char)

lemma ord_bounds: "0 \<le> ord ch \<and> ord ch < 256"
proof -
  have "(of_char ch :: nat) < 256" by simp
  then have "int (of_char ch) < 256" by linarith
  then show ?thesis by (simp add: ord_nat)
qed

lemma ord_char_of: "0 \<le> i \<Longrightarrow> i < 256 \<Longrightarrow> ord (char_of i) = i"
  by (simp add: ord_def)

lemma char_of_ord: "char_of (ord ch) = ch"
  by (simp add: ord_def)

lemma ord_a: "ord CHR ''a'' = 97" by (simp add: ord_def)
lemma ord_A: "ord CHR ''A'' = 65" by (simp add: ord_def)

lemma str_index_map_char_of:
  fixes a b n :: nat
  assumes "b \<le> 256" "a \<le> n" "n < b"
  shows "str_index (map char_of [a..<b]) (char_of n) = Inr (int n - int a)"
  using assms
proof (induction "n - a" arbitrary: a)
  case 0
  then have "a = n" by simp
  with 0 show ?case by (simp add: upt_conv_Cons)
next
  case (Suc d)
  then have lt: "a < n" and ab: "a < b" by simp_all
  have ne: "char_of a \<noteq> (char_of n :: char)"
    using lt Suc.prems by simp
  have "d = n - Suc a" using Suc.hyps by simp
  then have "str_index (map char_of [Suc a..<b]) (char_of n) = Inr (int n - int (Suc a))"
    using Suc.hyps(1) [of "Suc a"] Suc.prems lt by simp
  with ne ab show ?case by (simp add: upt_conv_Cons)
qed

lemma ALPHABET_LOWER_upt: "ALPHABET_LOWER = map char_of [97..<123::nat]"
  by code_simp

lemma ALPHABET_UPPER_upt: "ALPHABET_UPPER = map char_of [65..<91::nat]"
  by code_simp

lemma nth_map_char_of_upt:
  fixes a b k :: nat
  shows "k < b - a \<Longrightarrow> map char_of [a..<b] ! k = (char_of (a + k) :: char)"
  by simp

lemma str_index_lower:
  assumes "97 \<le> ord ch" "ord ch \<le> 122"
  shows "str_index ALPHABET_LOWER ch = Inr (ord ch - 97)"
proof -
  define n :: nat where "n = of_char ch"
  have n: "ord ch = int n" "ch = char_of n" by (simp_all add: n_def ord_nat)
  have "97 \<le> n" "n < 123" using assms n(1) by linarith+
  then have "str_index ALPHABET_LOWER (char_of n) = Inr (int n - int 97)"
    unfolding ALPHABET_LOWER_upt by (intro str_index_map_char_of) simp_all
  then show ?thesis by (simp add: n(1) flip: n(2))
qed

lemma str_index_upper:
  assumes "65 \<le> ord ch" "ord ch \<le> 90"
  shows "str_index ALPHABET_UPPER ch = Inr (ord ch - 65)"
proof -
  define n :: nat where "n = of_char ch"
  have n: "ord ch = int n" "ch = char_of n" by (simp_all add: n_def ord_nat)
  have "65 \<le> n" "n < 91" using assms n(1) by linarith+
  then have "str_index ALPHABET_UPPER (char_of n) = Inr (int n - int 65)"
    unfolding ALPHABET_UPPER_upt by (intro str_index_map_char_of) simp_all
  then show ?thesis by (simp add: n(1) flip: n(2))
qed

lemma getitem_lower:
  assumes "0 \<le> k" "k < 26"
  shows "getitem ALPHABET_LOWER k = Inr (char_of (k + 97))"
proof -
  have k: "nat k < 26" using assms by linarith
  have "ALPHABET_LOWER ! nat k = (char_of (97 + nat k) :: char)"
    unfolding ALPHABET_LOWER_upt by (rule nth_map_char_of_upt) (use k in simp)
  moreover have "(char_of (97 + nat k) :: char) = char_of (int (97 + nat k))"
    by (simp only: char_of_nat)
  moreover have "int (97 + nat k) = k + 97" using assms by simp
  moreover have "length ALPHABET_LOWER = 26" by (simp add: ALPHABET_LOWER_def)
  ultimately show ?thesis using assms by (simp add: getitem_def)
qed

lemma getitem_upper:
  assumes "0 \<le> k" "k < 26"
  shows "getitem ALPHABET_UPPER k = Inr (char_of (k + 65))"
proof -
  have k: "nat k < 26" using assms by linarith
  have "ALPHABET_UPPER ! nat k = (char_of (65 + nat k) :: char)"
    unfolding ALPHABET_UPPER_upt by (rule nth_map_char_of_upt) (use k in simp)
  moreover have "(char_of (65 + nat k) :: char) = char_of (int (65 + nat k))"
    by (simp only: char_of_nat)
  moreover have "int (65 + nat k) = k + 65" using assms by simp
  moreover have "length ALPHABET_UPPER = 26" by (simp add: ALPHABET_UPPER_def)
  ultimately show ?thesis using assms by (simp add: getitem_def)
qed

lemma str_index_absent: "ch \<notin> set s \<Longrightarrow> str_index s ch = Inl ValueError"
  by (induction s) auto

lemma str_index_present: "ch \<in> set s \<Longrightarrow> \<exists>i. str_index s ch = Inr i"
  by (induction s) auto

lemma bf_shift_char_ascii:
  assumes "ord ch < 128"
  shows "bf_shift_char ch shift = Inr (shift_char ch shift)"
proof -
  have m: "0 \<le> (x + shift) mod 26" "(x + shift) mod 26 < 26" for x :: int by simp_all
  consider (lo) "97 \<le> ord ch" "ord ch \<le> 122" | (up) "65 \<le> ord ch" "ord ch \<le> 90"
    | (other) "\<not> islower ch" "\<not> isupper ch"
    using assms by (auto simp: islower_def isupper_def Let_def)
  then show ?thesis
  proof cases
    case lo
    then have "islower ch" by (simp add: islower_def)
    with lo show ?thesis
      by (simp add: bf_shift_char_def shift_char_def str_index_lower getitem_lower N_def ord_a)
  next
    case up
    then have "isupper ch" "\<not> islower ch" by (simp_all add: isupper_def islower_def)
    with up show ?thesis
      by (simp add: bf_shift_char_def shift_char_def str_index_upper getitem_upper N_def ord_A)
  next
    case other
    then show ?thesis by (simp add: bf_shift_char_def shift_char_def)
  qed
qed

lemma bf_caesar_shift_ascii:
  "\<forall>ch\<in>set cs. ord ch < 128 \<Longrightarrow> bf_caesar_shift cs shift = Inr (caesar_shift cs shift)"
  by (induction cs) (simp_all add: caesar_shift_def bf_shift_char_ascii)

section \<open>The shift transform of caesar\_freq\_decrypt.py\<close>

lemma mod26_bounds: "0 \<le> (x::int) mod 26 \<and> x mod 26 < 26"
  by simp

lemma mod26_assoc: "((x + s) mod 26 + t) mod 26 = (x + (s + t) mod 26) mod (26::int)"
  by presburger

lemma shift_char_lower:
  assumes "islower ch"
  shows "ord (shift_char ch shift) = (ord ch - 97 + shift) mod 26 + 97"
proof -
  have "0 \<le> (ord ch - 97 + shift) mod 26 + 97" "(ord ch - 97 + shift) mod 26 + 97 < 256"
    using mod26_bounds [of "ord ch - 97 + shift"] by linarith+
  then show ?thesis using assms by (simp add: shift_char_def N_def ord_a ord_char_of)
qed

lemma lower_not_upper: "islower ch \<Longrightarrow> \<not> isupper ch"
  by (auto simp: islower_def isupper_def Let_def)

lemma shift_char_upper:
  assumes "isupper ch"
  shows "ord (shift_char ch shift) = (ord ch - 65 + shift) mod 26 + 65"
proof -
  have "0 \<le> (ord ch - 65 + shift) mod 26 + 65" "(ord ch - 65 + shift) mod 26 + 65 < 256"
    using mod26_bounds [of "ord ch - 65 + shift"] by linarith+
  moreover have "\<not> islower ch" using assms lower_not_upper by blast
  ultimately show ?thesis using assms by (simp add: shift_char_def N_def ord_A ord_char_of)
qed

lemma shift_char_uncased: "\<not> islower ch \<Longrightarrow> \<not> isupper ch \<Longrightarrow> shift_char ch shift = ch"
  by (simp add: shift_char_def)

lemma alpha_iff_cased: "isalpha ch \<longleftrightarrow> islower ch \<or> isupper ch"
  by (auto simp: isalpha_def islower_def isupper_def Let_def)

lemma shift_char_islower: "islower (shift_char ch shift) = islower ch"
proof (cases "islower ch")
  case True
  have "97 \<le> ord (shift_char ch shift) \<and> ord (shift_char ch shift) \<le> 122"
    using shift_char_lower [OF True, of shift] mod26_bounds [of "ord ch - 97 + shift"] by linarith
  then show ?thesis using True by (simp add: islower_def)
next
  case False
  show ?thesis
  proof (cases "isupper ch")
    case True
    have "65 \<le> ord (shift_char ch shift) \<and> ord (shift_char ch shift) \<le> 90"
      using shift_char_upper [OF True, of shift] mod26_bounds [of "ord ch - 65 + shift"] by linarith
    then have "\<not> islower (shift_char ch shift)" by (auto simp: islower_def Let_def)
    then show ?thesis using False by simp
  next
    case nu: False
    then show ?thesis using False by (simp add: shift_char_uncased)
  qed
qed

lemma shift_char_isupper: "isupper (shift_char ch shift) = isupper ch"
proof (cases "isupper ch")
  case True
  have "65 \<le> ord (shift_char ch shift) \<and> ord (shift_char ch shift) \<le> 90"
    using shift_char_upper [OF True, of shift] mod26_bounds [of "ord ch - 65 + shift"] by linarith
  then show ?thesis using True by (simp add: isupper_def)
next
  case False
  show ?thesis
  proof (cases "islower ch")
    case True
    then have "islower (shift_char ch shift)" by (simp add: shift_char_islower)
    then show ?thesis using False lower_not_upper by blast
  next
    case nl: False
    then show ?thesis using False by (simp add: shift_char_uncased)
  qed
qed

lemma shift_char_isalpha: "isalpha (shift_char ch shift) = isalpha ch"
  by (simp add: alpha_iff_cased shift_char_islower shift_char_isupper)

lemma shift_char_not_alpha: "\<not> isalpha ch \<Longrightarrow> shift_char ch shift = ch"
  by (simp add: alpha_iff_cased shift_char_uncased)

lemma shift_char_cp_char:
  "ord (shift_char ch shift) = shift_char_cp (islower ch) (isupper ch) (ord ch) shift"
proof (cases "islower ch")
  case True
  then show ?thesis by (simp add: shift_char_lower shift_char_cp_def N_def ord_a)
next
  case False
  then show ?thesis
    by (cases "isupper ch")
      (simp_all add: shift_char_upper shift_char_uncased shift_char_cp_def N_def ord_A)
qed

lemma shift_char_mod: "shift_char ch (shift mod N) = shift_char ch shift"
  by (simp add: shift_char_def N_def mod_add_right_eq)

lemma caesar_shift_mod: "caesar_shift cs (shift mod N) = caesar_shift cs shift"
  by (simp add: caesar_shift_def shift_char_mod)

lemma shift_char_zero_ascii:
  assumes "ascii_cased ch"
  shows "shift_char ch 0 = ch"
proof -
  have "shift_char ch 0 = char_of (ord ch)"
  proof (cases "islower ch")
    case True
    then have "97 \<le> ord ch" "ord ch \<le> 122" using assms by (auto simp: islower_def ascii_cased_def Let_def)
    then have "(ord ch - 97) mod 26 + 97 = ord ch" by simp
    then show ?thesis using True by (simp add: shift_char_def N_def ord_a)
  next
    case False
    show ?thesis
    proof (cases "isupper ch")
      case True
      then have "65 \<le> ord ch" "ord ch \<le> 90" using assms by (auto simp: isupper_def ascii_cased_def Let_def)
      then have "(ord ch - 65) mod 26 + 65 = ord ch" by simp
      then show ?thesis using True False by (simp add: shift_char_def N_def ord_A)
    next
      case nu: False
      then show ?thesis using False by (simp add: shift_char_def char_of_ord)
    qed
  qed
  then show ?thesis by (simp add: char_of_ord)
qed

lemma shift_char_add:
  "shift_char (shift_char ch s) t = shift_char ch ((s + t) mod 26)" if "ascii_cased ch"
proof -
  consider (lo) "islower ch" | (up) "isupper ch" | (other) "\<not> islower ch" "\<not> isupper ch" by blast
  then show ?thesis
  proof cases
    case lo
    have l2: "islower (shift_char ch s)" using lo by (simp add: shift_char_islower)
    have "ord (shift_char (shift_char ch s) t) = ((ord ch - 97 + s) mod 26 + 97 - 97 + t) mod 26 + 97"
      using shift_char_lower [OF l2, of t] shift_char_lower [OF lo, of s] by simp
    also have "\<dots> = (ord ch - 97 + (s + t) mod 26) mod 26 + 97"
      using mod26_assoc [of "ord ch - 97" s t] by simp
    also have "\<dots> = ord (shift_char ch ((s + t) mod 26))"
      using shift_char_lower [OF lo, of "(s + t) mod 26"] by simp
    finally have "char_of (ord (shift_char (shift_char ch s) t)) = (char_of (ord (shift_char ch ((s + t) mod 26))) :: char)"
      by simp
    then show ?thesis by (simp only: char_of_ord)
  next
    case up
    have l2: "isupper (shift_char ch s)" using up by (simp add: shift_char_isupper)
    have "ord (shift_char (shift_char ch s) t) = ((ord ch - 65 + s) mod 26 + 65 - 65 + t) mod 26 + 65"
      using shift_char_upper [OF l2, of t] shift_char_upper [OF up, of s] by simp
    also have "\<dots> = (ord ch - 65 + (s + t) mod 26) mod 26 + 65"
      using mod26_assoc [of "ord ch - 65" s t] by simp
    also have "\<dots> = ord (shift_char ch ((s + t) mod 26))"
      using shift_char_upper [OF up, of "(s + t) mod 26"] by simp
    finally have "char_of (ord (shift_char (shift_char ch s) t)) = (char_of (ord (shift_char ch ((s + t) mod 26))) :: char)"
      by simp
    then show ?thesis by (simp only: char_of_ord)
  next
    case other
    then show ?thesis by (simp add: shift_char_uncased)
  qed
qed

lemma shift_char_roundtrip_ascii:
  assumes "ascii_cased ch" "0 \<le> s" "s \<le> 25"
  shows "shift_char (shift_char ch s) ((26 - s) mod 26) = ch"
proof -
  have "(s + (26 - s) mod 26) mod 26 = 0" by (simp add: mod_simps)
  then show ?thesis using assms(1) by (simp add: shift_char_add shift_char_zero_ascii)
qed

lemma caesar_shift_twice: "caesar_shift (caesar_shift cs s) t = map (\<lambda>ch. shift_char (shift_char ch s) t) cs"
  by (simp add: caesar_shift_def)

lemma caesar_shift_zero_ascii:
  assumes "\<forall>ch\<in>set cs. ascii_cased ch"
  shows "caesar_shift cs 0 = cs"
  unfolding caesar_shift_def using assms by (intro map_idI) (simp add: shift_char_zero_ascii)

lemma caesar_shift_roundtrip_ascii:
  assumes "\<forall>ch\<in>set cs. ascii_cased ch" "0 \<le> s" "s \<le> 25"
  shows "caesar_shift (caesar_shift cs s) ((26 - s) mod 26) = cs"
  unfolding caesar_shift_twice using assms
  by (intro map_idI) (simp only: shift_char_roundtrip_ascii)

lemma not_in_alphabet_lower: "122 < ord ch \<Longrightarrow> ch \<notin> set ALPHABET_LOWER"
proof
  assume a: "122 < ord ch" "ch \<in> set ALPHABET_LOWER"
  then obtain m :: nat where m: "m < 123" "ch = char_of m"
    unfolding ALPHABET_LOWER_upt by auto
  then have "ord ch = int m" by (simp add: ord_nat)
  with a m show False by simp
qed

lemma not_in_alphabet_upper: "90 < ord ch \<Longrightarrow> ch \<notin> set ALPHABET_UPPER"
proof
  assume a: "90 < ord ch" "ch \<in> set ALPHABET_UPPER"
  then obtain m :: nat where m: "m < 91" "ch = char_of m"
    unfolding ALPHABET_UPPER_upt by auto
  then have "ord ch = int m" by (simp add: ord_nat)
  with a m show False by simp
qed

lemma bf_shift_char_non_ascii_cased:
  assumes "\<not> ascii_cased ch"
  shows "bf_shift_char ch shift = Inl ValueError"
proof (cases "islower ch")
  case True
  then have "122 < ord ch" using assms lower_not_upper by (auto simp: ascii_cased_def)
  then show ?thesis using True by (simp add: bf_shift_char_def str_index_absent not_in_alphabet_lower)
next
  case False
  then have "isupper ch" "90 < ord ch" using assms by (auto simp: ascii_cased_def)
  then show ?thesis using False by (simp add: bf_shift_char_def str_index_absent not_in_alphabet_upper)
qed

lemma ascii_cased_iff: "ascii_cased ch \<longleftrightarrow> ord ch < 128 \<or> \<not> isalpha ch"
  by (auto simp: ascii_cased_def isalpha_def islower_def isupper_def Let_def)

lemma bf_shift_char_ascii_cased:
  assumes "ascii_cased ch"
  shows "bf_shift_char ch shift = Inr (shift_char ch shift)"
proof (cases "ord ch < 128")
  case True
  then show ?thesis by (rule bf_shift_char_ascii)
next
  case False
  then have "\<not> islower ch" "\<not> isupper ch" using assms by (auto simp: ascii_cased_iff alpha_iff_cased)
  then show ?thesis by (simp add: bf_shift_char_def shift_char_def)
qed

section \<open>The shift transform of caesar\_bruteforce.py\<close>

lemma bf_caesar_shift_ascii_cased:
  "\<forall>ch\<in>set cs. ascii_cased ch \<Longrightarrow> bf_caesar_shift cs shift = Inr (caesar_shift cs shift)"
  by (induction cs) (simp_all add: caesar_shift_def bf_shift_char_ascii_cased)

lemma bf_caesar_shift_raises:
  "\<exists>ch\<in>set cs. \<not> ascii_cased ch \<Longrightarrow> bf_caesar_shift cs shift = Inl ValueError"
proof (induction cs)
  case Nil
  then show ?case by simp
next
  case (Cons c cs)
  show ?case
  proof (cases "ascii_cased c")
    case True
    then show ?thesis using Cons by (simp add: bf_shift_char_ascii_cased)
  next
    case False
    then show ?thesis by (simp add: bf_shift_char_non_ascii_cased)
  qed
qed

lemma bruteforce_loop_ascii_cased:
  "\<forall>ch\<in>set cs. ascii_cased ch \<Longrightarrow>
    bruteforce_loop cs shifts = (map (\<lambda>s. (s, caesar_shift cs s)) shifts, None)"
  by (induction shifts) (simp_all add: bf_caesar_shift_ascii_cased)

lemma bruteforce_caesar_ascii_cased:
  "\<forall>ch\<in>set cs. ascii_cased ch \<Longrightarrow>
    bruteforce_caesar cs = (map (\<lambda>s. (s, caesar_shift cs s)) [0..25], None)"
  by (simp add: bruteforce_caesar_def py_range_N bruteforce_loop_ascii_cased)

lemma bruteforce_caesar_raises:
  assumes "\<exists>ch\<in>set cs. \<not> ascii_cased ch"
  shows "bruteforce_caesar cs = ([], Some ValueError)"
proof -
  have "[0..25::int] = 0 # [1..25]" by (simp add: upto_rec1)
  then show ?thesis using assms
    by (simp add: bruteforce_caesar_def py_range_N bf_caesar_shift_raises)
qed

lemma e_acute: "islower (CHR 0xE9)" "\<not> ascii_cased (CHR 0xE9)" "ord (CHR 0xE9) = 233"
  by (simp_all add: islower_def ascii_cased_def ord_def)

lemma bf_shift_char_mod: "bf_shift_char ch (shift mod N) = bf_shift_char ch shift"
proof -
  have "(idx + shift mod N) mod N = (idx + shift) mod N" for idx
    by (simp add: mod_add_right_eq)
  then show ?thesis unfolding bf_shift_char_def by (simp only:)
qed

section \<open>Counting letters and the chi-squared score\<close>

lemma counter_get_incr:
  "counter_get (counter_incr k c) k' 0 = counter_get c k' 0 + (if k' = k then 1 else 0)"
  by (induction c) (auto simp: counter_get_def)

lemma counter_sum_incr: "sum_list (map snd (counter_incr k c)) = sum_list (map snd c) + 1"
  by (induction c) auto

lemma counter_keys_incr: "fst ` set (counter_incr k c) = insert k (fst ` set c)"
  by (induction k c rule: counter_incr.induct) auto

lemma counter_distinct_incr: "distinct (map fst c) \<Longrightarrow> distinct (map fst (counter_incr k c))"
proof (induction c)
  case Nil
  then show ?case by simp
next
  case (Cons p c)
  obtain k' v where p: "p = (k', v)" by (cases p)
  have "fst ` set (counter_incr k c) = insert k (fst ` set c)"
    by (rule counter_keys_incr)
  with Cons p show ?case by auto
qed

lemma counter_fold_get:
  "counter_get (foldl (\<lambda>c k. counter_incr k c) c0 ks) k' 0 = counter_get c0 k' 0 + count_list ks k'"
  by (induction ks arbitrary: c0) (auto simp: counter_get_incr)

lemma counter_fold_sum:
  "sum_list (map snd (foldl (\<lambda>c k. counter_incr k c) c0 ks)) = sum_list (map snd c0) + length ks"
  by (induction ks arbitrary: c0) (auto simp: counter_sum_incr)

lemma counter_fold_keys:
  "fst ` set (foldl (\<lambda>c k. counter_incr k c) c0 ks) = fst ` set c0 \<union> set ks"
  by (induction ks arbitrary: c0) (simp_all add: counter_keys_incr)

lemma counter_fold_distinct:
  "distinct (map fst c0) \<Longrightarrow> distinct (map fst (foldl (\<lambda>c k. counter_incr k c) c0 ks))"
  by (induction ks arbitrary: c0) (auto simp: counter_distinct_incr)

lemma Counter_get: "counter_get (Counter ks) k 0 = count_list ks k"
  using counter_fold_get [of "[]" ks k] by (simp add: Counter_def counter_get_def)

lemma Counter_sum: "sum_list (map snd (Counter ks)) = length ks"
  by (simp add: Counter_def counter_fold_sum)

lemma Counter_keys: "fst ` set (Counter ks) = set ks"
  using counter_fold_keys [of "[]" ks] by (simp add: Counter_def)

lemma Counter_distinct: "distinct (map fst (Counter ks))"
  by (simp add: Counter_def counter_fold_distinct)

lemma count_list_map_filter:
  "count_list (map f (filter P xs)) y = length (filter (\<lambda>x. P x \<and> f x = y) xs)"
  by (induction xs) auto

lemma count_letters_total: "snd (count_letters text) = total_letters text"
  by (simp add: count_letters_def Let_def Counter_sum total_letters_def)

lemma ord_inj: "ord a = ord b \<Longrightarrow> a = b"
  by (simp add: ord_def)

lemma upper_is_letter:
  assumes "65 \<le> ord letter" "ord letter \<le> 90"
  shows "(isalpha c \<and> upper c = [ord letter]) = (c = letter \<or> c = lowercase_of letter)"
proof
  assume a: "isalpha c \<and> upper c = [ord letter]"
  show "c = letter \<or> c = lowercase_of letter"
  proof (cases "97 \<le> ord c \<and> ord c \<le> 122")
    case True
    with a have "ord c = ord letter + 32" by (simp add: upper_def)
    then have "char_of (ord c) = (char_of (ord letter + 32) :: char)" by simp
    then show ?thesis by (simp add: lowercase_of_def char_of_ord)
  next
    case False
    with a assms have "ord c = ord letter"
      by (auto simp: upper_def Let_def split: if_splits)
    then show ?thesis by (simp add: ord_inj)
  qed
next
  assume "c = letter \<or> c = lowercase_of letter"
  then show "isalpha c \<and> upper c = [ord letter]"
  proof
    assume "c = letter"
    with assms show ?thesis by (simp add: isalpha_def upper_def)
  next
    assume c: "c = lowercase_of letter"
    have "0 \<le> ord letter + 32" "ord letter + 32 < 256" using assms by linarith+
    then have "ord c = ord letter + 32" by (simp add: c lowercase_of_def ord_char_of)
    with assms show ?thesis by (simp add: isalpha_def upper_def)
  qed
qed

lemma count_letters_get:
  assumes "65 \<le> ord letter" "ord letter \<le> 90"
  shows "counter_get (fst (count_letters text)) [ord letter] 0 = observed_count text letter"
  by (simp add: count_letters_def Let_def Counter_get count_list_map_filter
      upper_is_letter [OF assms] observed_count_def)

lemma chi_loop_sum:
  assumes "\<forall>letter\<in>set ls. map_of ENGLISH_FREQ letter = Some (referenceFrequency letter) \<and> 0 < referenceFrequency letter"
    and "0 < n"
  shows "chi_loop counts n ls acc =
    Inr (acc + (\<Sum>letter\<leftarrow>ls.
       (of_nat (counter_get counts [ord letter] 0) - referenceFrequency letter * of_nat n / 100)\<^sup>2
        / (referenceFrequency letter * of_nat n / 100)))"
  using assms(1)
proof (induction ls arbitrary: acc)
  case Nil
  then show ?case by simp
next
  case (Cons letter ls)
  then have f: "map_of ENGLISH_FREQ letter = Some (referenceFrequency letter)"
    "0 < referenceFrequency letter" by auto
  have pos: "0 < referenceFrequency letter * of_nat n / 100" using f(2) assms(2) by simp
  show ?case using Cons f pos by (simp add: Let_def power2_eq_square add.assoc)
qed

lemma ENGLISH_FREQ_positive:
  "\<forall>letter\<in>set ALPHABET. map_of ENGLISH_FREQ letter = Some (referenceFrequency letter) \<and> 0 < referenceFrequency letter"
  by (simp add: ALPHABET_def ENGLISH_FREQ_def referenceFrequency_def)

lemma ALPHABET_range: "letter \<in> set ALPHABET \<Longrightarrow> 65 \<le> ord letter \<and> ord letter \<le> 90"
  by (auto simp: ALPHABET_def ord_def)

lemma referenceFrequency_pos: "letter \<in> set ALPHABET \<Longrightarrow> 0 < referenceFrequency letter"
  using ENGLISH_FREQ_positive by simp

lemma chi_squared_score_sum:
  assumes "0 < total_letters text"
  shows "chi_squared_score text = Inr (Finite (chi_squared_sum text)) \<and> 0 \<le> chi_squared_sum text"
proof -
  obtain counts n where cl: "count_letters text = (counts, n)" by (cases "count_letters text")
  have n: "n = total_letters text" using count_letters_total [of "text"] cl by simp
  have obs: "counter_get counts [ord letter] 0 = observed_count text letter"
    if "letter \<in> set ALPHABET" for letter
    using count_letters_get [of letter "text"] ALPHABET_range [OF that] cl by simp
  have "chi_loop counts n ALPHABET 0 =
    Inr (0 + (\<Sum>letter\<leftarrow>ALPHABET.
       (of_nat (counter_get counts [ord letter] 0) - referenceFrequency letter * of_nat n / 100)\<^sup>2
        / (referenceFrequency letter * of_nat n / 100)))"
    using ENGLISH_FREQ_positive assms n by (intro chi_loop_sum) simp_all
  also have "(\<Sum>letter\<leftarrow>ALPHABET.
       (of_nat (counter_get counts [ord letter] 0) - referenceFrequency letter * of_nat n / 100)\<^sup>2
        / (referenceFrequency letter * of_nat n / 100)) = chi_squared_sum text"
    unfolding chi_squared_sum_def
    by (rule arg_cong [where f = sum_list], rule map_cong) (simp_all add: obs expected_count_def n)
  finally have score: "chi_squared_score text = Inr (Finite (chi_squared_sum text))"
    using assms by (simp add: chi_squared_score_def cl n)
  have "0 \<le> (of_nat (observed_count text letter) - expected_count text letter)\<^sup>2 / expected_count text letter"
    if "letter \<in> set ALPHABET" for letter
  proof -
    have "0 < expected_count text letter"
      using referenceFrequency_pos [OF that] assms by (simp add: expected_count_def)
    then show ?thesis by simp
  qed
  then have "0 \<le> chi_squared_sum text"
    unfolding chi_squared_sum_def by (intro sum_list_nonneg) auto
  with score show ?thesis by simp
qed

lemma chi_squared_score_no_letters:
  "total_letters text = 0 \<Longrightarrow> chi_squared_score text = Inr PosInf"
  using count_letters_total [of "text"] by (cases "count_letters text") (simp add: chi_squared_score_def)

lemma chi_squared_score_returns: "\<exists>score. chi_squared_score text = Inr score"
  using chi_squared_score_sum [of "text"] chi_squared_score_no_letters [of "text"]
  by (cases "total_letters text = 0") auto

section \<open>The candidate ranker\<close>

lemma chi_squared_score_eq: "chi_squared_score text = Inr (score_of text)"
  using chi_squared_score_sum [of "text"] chi_squared_score_no_letters [of "text"]
  by (cases "total_letters text = 0") (simp_all add: score_of_def)

lemma score_loop_eq: "score_loop ct ss acc = Inr (acc @ map (scored ct) ss)"
  by (induction ss arbitrary: acc) (simp_all add: chi_squared_score_eq scored_def Let_def)

lemma mf_inner_fresh:
  assumes "distinct ts" "\<forall>t\<in>set ts. ([oc], t) \<notin> mapped"
  shows "mf_inner ct [oc] ts (cands, mapped) =
    Inr (cands @ map (mf_entry ct oc) ts, mapped \<union> (\<lambda>t. ([oc], t)) ` set ts)"
  using assms
proof (induction ts arbitrary: cands mapped)
  case Nil
  then show ?case by simp
next
  case (Cons t ts)
  have "\<forall>t'\<in>set ts. ([oc], t') \<notin> insert ([oc], t) mapped" using Cons.prems by auto
  then have "mf_inner ct [oc] ts (cands @ [mf_entry ct oc t], insert ([oc], t) mapped) =
    Inr ((cands @ [mf_entry ct oc t]) @ map (mf_entry ct oc) ts,
         insert ([oc], t) mapped \<union> (\<lambda>t. ([oc], t)) ` set ts)"
    using Cons.prems by (intro Cons.IH) simp_all
  then show ?case using Cons.prems by (simp add: ord_str_def mf_entry_def Let_def)
qed

lemma ord_str_error: "length k \<noteq> 1 \<Longrightarrow> ord_str k = Inl TypeError"
  by (cases k rule: list.exhaust; simp add: ord_str_def split: list.splits)

lemma mf_inner_type_error:
  assumes "length k \<noteq> 1" "(k, t) \<notin> mapped"
  shows "mf_inner ct k (t # ts) (cands, mapped) = Inl TypeError"
  using assms by (simp add: ord_str_error)

lemma single_char: "length k = 1 \<Longrightarrow> \<exists>oc. k = [oc]"
  by (cases k) simp_all

lemma common_targets_facts: "distinct common_targets" "length common_targets = 10"
  "common_targets = CHR ''E'' # ''TAOINSRHL''"
  by (simp_all add: common_targets_def)

lemma length_mf_block:
  assumes "length k = 1"
  shows "length (mf_block ct k) = 10"
proof -
  obtain oc where "k = [oc]" using assms single_char by blast
  then show ?thesis by (simp add: mf_block_def common_targets_facts(2))
qed

lemma mf_inner_block:
  assumes "length k = 1" "\<forall>t\<in>set common_targets. (k, t) \<notin> mapped"
  shows "mf_inner ct k common_targets (cands, mapped) =
    Inr (cands @ mf_block ct k, mapped \<union> (\<lambda>t. (k, t)) ` set common_targets)"
proof -
  obtain oc where k: "k = [oc]" using assms(1) single_char by blast
  show ?thesis unfolding k mf_block_def using assms(2) common_targets_facts(1)
    by (simp add: mf_inner_fresh k)
qed

lemma mf_inner_bad:
  assumes "length k \<noteq> 1" "\<forall>t\<in>set common_targets. (k, t) \<notin> mapped"
  shows "mf_inner ct k common_targets (cands, mapped) = Inl TypeError"
  using assms unfolding common_targets_facts(3) by (intro mf_inner_type_error) simp_all

lemma mf_outer_start:
  assumes "distinct ks"
  shows "mf_outer ct ks ([], {}) =
    (if \<forall>k\<in>set (take 2 ks). length k = 1
     then Inr (concat (map (mf_block ct) (take 2 ks)),
               (\<Union>k\<in>set (take 2 ks). (\<lambda>t. (k, t)) ` set common_targets))
     else Inl TypeError)"
proof (cases ks)
  case Nil
  then show ?thesis by simp
next
  case (Cons k1 ks1)
  show ?thesis
  proof (cases "length k1 = 1")
    case False
    then show ?thesis using Cons by (simp add: mf_inner_bad)
  next
    case k1: True
    have step1: "mf_inner ct k1 common_targets ([], {}) =
      Inr (mf_block ct k1, (\<lambda>t. (k1, t)) ` set common_targets)"
      using mf_inner_block [OF k1, of "{}" ct "[]"] by simp
    have l1: "length (mf_block ct k1) = 10" using k1 by (rule length_mf_block)
    show ?thesis
    proof (cases ks1)
      case Nil
      then show ?thesis using Cons k1 step1 l1 by simp
    next
      case (Cons k2 ks2)
      have ne: "k2 \<noteq> k1" using assms \<open>ks = k1 # ks1\<close> Cons by auto
      then have fresh: "\<forall>t\<in>set common_targets. (k2, t) \<notin> (\<lambda>t. (k1, t)) ` set common_targets"
        by auto
      show ?thesis
      proof (cases "length k2 = 1")
        case False
        then show ?thesis using \<open>ks = k1 # ks1\<close> Cons k1 step1 l1 fresh
          by (simp add: mf_inner_bad)
      next
        case k2: True
        have l2: "length (mf_block ct k2) = 10" using k2 by (rule length_mf_block)
        have step2: "mf_inner ct k2 common_targets (mf_block ct k1, (\<lambda>t. (k1, t)) ` set common_targets) =
          Inr (mf_block ct k1 @ mf_block ct k2,
               (\<lambda>t. (k1, t)) ` set common_targets \<union> (\<lambda>t. (k2, t)) ` set common_targets)"
          using mf_inner_block [OF k2 fresh] by simp
        show ?thesis using \<open>ks = k1 # ks1\<close> Cons k1 k2 step1 step2 l1 l2 by simp
      qed
    qed
  qed
qed

lemma most_common_distinct: "distinct (map fst c) \<Longrightarrow> distinct (map fst (most_common c))"
  by (simp add: most_common_def distinct_map)

lemma count_letters_distinct: "distinct (map fst (fst (count_letters s)))"
  by (simp add: count_letters_def Let_def Counter_distinct)

lemma freq_based_candidates_eq:
  "freq_based_candidates ct n =
    (if \<forall>k\<in>set (heuristic_letters ct). length k = 1
     then Inr \<lparr>most_freq_guesses = concat (map (mf_block ct) (heuristic_letters ct)),
               chi_squared_ranking = ranking ct n\<rparr>
     else Inl TypeError)"
proof -
  obtain counts m where cl: "count_letters ct = (counts, m)" by (cases "count_letters ct")
  have m: "m = total_letters ct" using count_letters_total [of ct] cl by simp
  have d: "distinct (map fst (most_common counts))"
    using count_letters_distinct [of ct] cl by (simp add: most_common_distinct)
  show ?thesis
  proof (cases "m = 0")
    case True
    then show ?thesis using m
      by (simp add: freq_based_candidates_def cl heuristic_letters_def score_loop_eq py_range_N ranking_def)
  next
    case False
    then have h: "heuristic_letters ct = take 2 (map fst (most_common counts))"
      using m by (simp add: heuristic_letters_def cl)
    show ?thesis using False
      by (simp add: freq_based_candidates_def cl mf_outer_start [OF d] h score_loop_eq py_range_N ranking_def)
  qed
qed

lemma slice_to_take: "\<exists>m. slice_to xs n = take m xs"
  by (auto simp: slice_to_def)

lemma length_shifts: "length [0..25::int] = 26"
  by simp

lemma ranking_sorted: "sorted (map (\<lambda>x. fst (snd x)) (ranking ct n))"
proof -
  let ?all = "sort_key (\<lambda>x. fst (snd x)) (map (scored ct) [0..25])"
  obtain m where m: "ranking ct n = take m ?all"
    using slice_to_take [of ?all n] by (auto simp: ranking_def)
  have "sorted (map (\<lambda>x. fst (snd x)) ?all)" by (rule sorted_sort_key)
  then have "sorted (take m (map (\<lambda>x. fst (snd x)) ?all))" by (rule sorted_wrt_take)
  then show ?thesis by (simp add: m take_map)
qed

lemma ranking_length: "0 \<le> n \<Longrightarrow> length (ranking ct n) = min (nat n) 26"
  by (simp add: ranking_def slice_to_def)

lemma ranking_entries:
  assumes "x \<in> set (ranking ct n)"
  shows "\<exists>s. 0 \<le> s \<and> s \<le> 25 \<and> x = scored ct s"
proof -
  let ?all = "sort_key (\<lambda>x. fst (snd x)) (map (scored ct) [0..25])"
  obtain m where m: "ranking ct n = take m ?all"
    using slice_to_take [of ?all n] by (auto simp: ranking_def)
  have "x \<in> set ?all" using assms m set_take_subset [of m ?all] by auto
  then show ?thesis by auto
qed

lemma caesar_shift_no_letters:
  assumes "\<forall>c\<in>set cs. \<not> isalpha c"
  shows "caesar_shift cs shift = cs"
  unfolding caesar_shift_def using assms by (intro map_idI) (simp add: shift_char_not_alpha)

lemma total_letters_zero_iff: "total_letters cs = 0 \<longleftrightarrow> (\<forall>c\<in>set cs. \<not> isalpha c)"
  by (simp add: total_letters_def filter_empty_conv)

lemma sort_key_const:
  assumes "\<forall>x\<in>set xs. f x = c"
  shows "sort_key f xs = xs"
proof -
  have "map f xs = replicate (length xs) c" using assms by (simp add: map_replicate_const [symmetric])
  then have "sorted (map f xs)" by simp
  then show ?thesis by (rule sort_key_id_if_sorted)
qed

lemma ranking_no_letters:
  assumes "\<forall>c\<in>set cs. \<not> isalpha c"
  shows "ranking cs n = slice_to (map (\<lambda>s. (s, PosInf, cs)) [0..25]) n"
proof -
  have "scored cs s = (s, PosInf, cs)" for s
    using assms by (simp add: scored_def caesar_shift_no_letters score_of_def total_letters_zero_iff)
  then have eq: "map (scored cs) [0..25] = map (\<lambda>s. (s, PosInf, cs)) [0..25]" by simp
  have "sort_key (\<lambda>x. fst (snd x)) (map (\<lambda>s. (s, PosInf, cs)) [0..25]) = map (\<lambda>s. (s, PosInf, cs)) [0..25]"
    by (rule sort_key_const [where c = PosInf]) auto
  then show ?thesis by (simp only: ranking_def eq)
qed

lemma heuristic_letters_length: "length (heuristic_letters ct) \<le> 2"
  by (simp add: heuristic_letters_def)

lemma heuristic_letters_distinct: "distinct (heuristic_letters ct)"
proof -
  have "distinct (map fst (most_common (fst (count_letters ct))))"
    by (rule most_common_distinct) (rule count_letters_distinct)
  then show ?thesis by (simp add: heuristic_letters_def)
qed

lemma length_blocks:
  "\<forall>k\<in>set ks. length k = 1 \<Longrightarrow> length (concat (map (mf_block ct) ks)) = 10 * length ks"
  by (induction ks) (simp_all add: length_mf_block)

lemma candidates_returned:
  assumes "freq_based_candidates ct n = Inr r"
  shows "\<forall>k\<in>set (heuristic_letters ct). length k = 1"
    and "most_freq_guesses r = concat (map (mf_block ct) (heuristic_letters ct))"
    and "chi_squared_ranking r = ranking ct n"
  using assms unfolding freq_based_candidates_eq by (auto split: if_splits)

lemma candidates_raised:
  assumes "freq_based_candidates ct n = Inl e"
  shows "e = TypeError \<and> (\<exists>k\<in>set (heuristic_letters ct). length k \<noteq> 1)"
  using assms unfolding freq_based_candidates_eq by (auto split: if_splits)

lemma most_freq_guesses_length:
  assumes "freq_based_candidates ct n = Inr r"
  shows "length (most_freq_guesses r) = 10 * length (heuristic_letters ct)"
  using candidates_returned(1,2) [OF assms] by (simp add: length_blocks)

lemma upper_single: "ord ch \<noteq> 223 \<Longrightarrow> length (upper ch) = 1"
  by (simp add: upper_def Let_def)

lemma most_common_keys: "fst ` set (most_common c) = fst ` set c"
  by (simp add: most_common_def)

lemma heuristic_letters_subset:
  "set (heuristic_letters ct) \<subseteq> upper ` set ct"
proof -
  have "fst ` set (fst (count_letters ct)) = set (map upper (filter isalpha ct))"
    by (simp add: count_letters_def Let_def Counter_keys)
  then have "set (map fst (most_common (fst (count_letters ct)))) \<subseteq> upper ` set ct"
    by (auto simp: most_common_keys)
  then show ?thesis
    using set_take_subset [of 2 "map fst (most_common (fst (count_letters ct)))"]
    by (auto simp: heuristic_letters_def)
qed

lemma candidates_return_without_sharp_s:
  assumes "\<forall>ch\<in>set ct. ord ch \<noteq> 223"
  shows "\<exists>r. freq_based_candidates ct n = Inr r"
proof -
  have "\<forall>k\<in>set (heuristic_letters ct). length k = 1"
    using heuristic_letters_subset [of ct] assms upper_single by fastforce
  then show ?thesis by (simp add: freq_based_candidates_eq)
qed

lemma chi_squared_ranking_returned:
  assumes "0 \<le> n" "freq_based_candidates ct n = Inr r"
  shows "sorted (map (\<lambda>(s, score, plaintext). score) (chi_squared_ranking r))"
    and "\<forall>(s, score, plaintext)\<in>set (chi_squared_ranking r).
           plaintext = caesar_shift ct s \<and> chi_squared_score plaintext = Inr score"
    and "length (chi_squared_ranking r) = min (nat n) 26"
proof -
  have r: "chi_squared_ranking r = ranking ct n" by (rule candidates_returned(3) [OF assms(2)])
  have "(\<lambda>(s, score, plaintext). score) = (\<lambda>x :: int \<times> float \<times> string. fst (snd x))" by auto
  then show "sorted (map (\<lambda>(s, score, plaintext). score) (chi_squared_ranking r))"
    using ranking_sorted [of ct n] r by simp
  show "\<forall>(s, score, plaintext)\<in>set (chi_squared_ranking r).
           plaintext = caesar_shift ct s \<and> chi_squared_score plaintext = Inr score"
    using ranking_entries [of _ ct n] r by (fastforce simp: scored_def chi_squared_score_eq)
  show "length (chi_squared_ranking r) = min (nat n) 26"
    using assms(1) r by (simp add: ranking_length)
qed

lemma mf_block_pairs:
  "length k = 1 \<Longrightarrow> map (\<lambda>(c, t, s, p). (c, t)) (mf_block ct k) = map (\<lambda>t. (k, t)) common_targets"
proof -
  assume "length k = 1"
  then obtain oc where "k = [oc]" using single_char by blast
  then show ?thesis by (simp add: mf_block_def mf_entry_def)
qed

lemma mf_block_entries:
  assumes "x \<in> set (mf_block ct k)"
  shows "\<exists>oc t. x = ([oc], t, (ord t - oc) mod 26, caesar_shift ct ((ord t - oc) mod 26))"
  using assms by (auto simp: mf_block_def mf_entry_def N_def split: list.splits)

lemma most_freq_guesses_returned:
  assumes "freq_based_candidates ct n = Inr r"
  shows "length (most_freq_guesses r) \<le> 20"
    and "distinct (map (\<lambda>(c, t, s, p). (c, t)) (most_freq_guesses r))"
    and "\<forall>(c, t, s, p)\<in>set (most_freq_guesses r).
           \<exists>oc. c = [oc] \<and> s = (ord t - oc) mod 26 \<and> p = caesar_shift ct s"
proof -
  note ret = candidates_returned [OF assms]
  show "length (most_freq_guesses r) \<le> 20"
    using most_freq_guesses_length [OF assms] heuristic_letters_length [of ct] by simp
  show "\<forall>(c, t, s, p)\<in>set (most_freq_guesses r).
           \<exists>oc. c = [oc] \<and> s = (ord t - oc) mod 26 \<and> p = caesar_shift ct s"
    using ret(2) mf_block_entries [of _ ct] by fastforce
  have d: "distinct (heuristic_letters ct)" by (rule heuristic_letters_distinct)
  have dt: "distinct (map (\<lambda>t. (k, t)) common_targets)" for k :: pystr
    by (simp add: distinct_map inj_on_def common_targets_facts(1))
  show "distinct (map (\<lambda>(c, t, s, p). (c, t)) (most_freq_guesses r))"
  proof (cases "heuristic_letters ct")
    case Nil
    then show ?thesis using ret(2) by simp
  next
    case first: (Cons k1 ks1)
    show ?thesis
    proof (cases ks1)
      case Nil
      then show ?thesis using first ret(1,2) dt by (simp add: mf_block_pairs)
    next
      case (Cons k2 ks2)
      then have "ks2 = []" using first heuristic_letters_length [of ct] by simp
      moreover have "k1 \<noteq> k2" using d first Cons by simp
      ultimately show ?thesis using first Cons ret(1,2) dt by (auto simp: mf_block_pairs)
    qed
  qed
qed

section \<open>The claims\<close>

subsection \<open>C1: the chi-squared score\<close>

text \<open>
  In exact arithmetic, and with the total that \<^verbatim>\<open>count_letters\<close> returns, the score of
  a text with a positive total is the sum over the 26 letters, and the \<^verbatim>\<open>KeyError\<close> and
  epsilon branches are not taken (\<open>chi_squared_score_sum\<close>). That says nothing about
  the rounded value the code returns, and the total is not the one of the claim.
\<close>

text \<open>
  Claim C1. For every text whose total letter count is positive, \<^verbatim>\<open>chi_squared_score\<close>
  returns the sum over the 26 uppercase letters of (observed - expected)^2 / expected,
  where expected is the letter's reference frequency times the total letter count divided
  by 100 and observed is the letter's case-insensitive count; the result is finite and at
  least 0.

  The total of the code is not the number of letters of the text among the 26:
  \<^verbatim>\<open>count_letters\<close>, whose docstring says that it counts the letters A-Z, counts every
  character that \<^verbatim>\<open>isalpha\<close> accepts, under the key of its upper-cased form. For the
  text of a followed by e with acute accent (U+00E9) the counter holds the keys A and
  U+00C9 and the total is 2, while the 26 counts that the scorer reads sum to 1. The
  scorer then takes expected = frequency * 2 / 100 for each letter.
\<close>

theorem count_letters_a_e_acute:
  "count_letters [CHR ''a'', CHR 0xE9] = ([([65], 1), ([201], 1)], 2) \<and>
   (\<Sum>letter\<leftarrow>ALPHABET. counter_get (fst (count_letters [CHR ''a'', CHR 0xE9])) [ord letter] 0) = 1"
proof -
  have c: "count_letters [CHR ''a'', CHR 0xE9] = ([([65], 1), ([201], 1)], 2)"
    by code_simp
  have "(\<Sum>letter\<leftarrow>ALPHABET. counter_get [([65], 1), ([201], 1)] [ord letter] 0) = 1"
    by (simp add: ALPHABET_def counter_get_def ord_def)
  with c show ?thesis by simp
qed

subsection \<open>C2: the brute-force enumerator\<close>

text \<open>
  Claim C2. For every input string, \<^verbatim>\<open>bruteforce_caesar\<close> produces exactly 26 pairs,
  for the shifts 0..25 in ascending order, each with the text shifted by that shift.

  The code does so for every string whose cased characters are ASCII letters
  (\<open>bruteforce_caesar_ascii_cased\<close>). On a string with a cased letter of the Latin-1
  supplement it yields no pair: \<^verbatim>\<open>islower\<close> or \<^verbatim>\<open>isupper\<close> accepts the letter,
  the alphabet does not hold it, and \<^verbatim>\<open>index\<close> raises \<^verbatim>\<open>ValueError\<close> before the first
  pair is yielded (\<open>bruteforce_caesar_raises\<close>). The input below is the one-character
  string of e with acute accent, U+00E9.
\<close>

theorem bruteforce_caesar_e_acute: "bruteforce_caesar [CHR 0xE9] = ([], Some ValueError)"
  by (rule bruteforce_caesar_raises) (simp add: e_acute)

subsection \<open>C3: shifting back, and shifting by 0\<close>

text \<open>
  Claim C3. For every text and every shift s in 0..25, shifting by s and then by
  (26 - s) mod 26 gives the text again, and shifting by 0 leaves every text unchanged.

  Both hold for every text whose cased characters are ASCII letters
  (\<open>caesar_shift_roundtrip_ascii\<close>, \<open>caesar_shift_zero_ascii\<close>). On e with acute
  accent (U+00E9), a lowercase letter for \<^verbatim>\<open>islower\<close>, the character arithmetic of
  caesar\_freq\_decrypt.py gives the ASCII letter g for shift 0, and for shift 3 followed
  by shift 23; caesar\_bruteforce.py raises \<^verbatim>\<open>ValueError\<close>.
\<close>

theorem caesar_shift_e_acute:
  "caesar_shift [CHR 0xE9] 0 = ''g'' \<and>
   caesar_shift (caesar_shift [CHR 0xE9] 3) ((26 - 3) mod 26) = ''g'' \<and>
   bf_caesar_shift [CHR 0xE9] 0 = Inl ValueError"
proof -
  have g: "char_of (103::int) = CHR ''g''" and j: "char_of (106::int) = CHR ''j''"
    by code_simp+
  have lj: "islower CHR ''j''" "ord CHR ''j'' = 106" by (simp_all add: islower_def ord_def)
  have 1: "shift_char (CHR 0xE9) 0 = CHR ''g''"
    by (simp add: shift_char_def e_acute N_def ord_a g)
  have 2: "shift_char (CHR 0xE9) 3 = CHR ''j''"
    by (simp add: shift_char_def e_acute N_def ord_a j)
  have 3: "shift_char (CHR ''j'') 23 = CHR ''g''"
    by (simp add: shift_char_def lj N_def ord_a g)
  have 4: "bf_caesar_shift [CHR 0xE9] 0 = Inl ValueError"
    by (rule bf_caesar_shift_raises) (simp add: e_acute)
  show ?thesis using 1 2 3 4 by (simp add: caesar_shift_def)
qed

subsection \<open>C4: length, non-letters and case are preserved\<close>

text \<open>
  On the code points 0..255 every cased character is alphabetic (\<open>alpha_iff_cased\<close>),
  and there \<^verbatim>\<open>caesar_shift\<close> of caesar\_freq\_decrypt.py keeps the length, leaves every
  character that \<^verbatim>\<open>isalpha\<close> rejects where it is, and maps every character that
  \<^verbatim>\<open>isalpha\<close> accepts to an ASCII letter of the same case.
\<close>

lemma caesar_shift_preserves_below_256:
  "length (caesar_shift text shift) = length text \<and>
   (\<forall>i<length text.
      (\<not> isalpha (text ! i) \<longrightarrow> caesar_shift text shift ! i = text ! i) \<and>
      (isalpha (text ! i) \<longrightarrow>
         isalpha (caesar_shift text shift ! i) \<and>
         islower (caesar_shift text shift ! i) = islower (text ! i) \<and>
         isupper (caesar_shift text shift ! i) = isupper (text ! i)))"
  by (simp add: caesar_shift_def shift_char_not_alpha shift_char_isalpha shift_char_islower
      shift_char_isupper)

text \<open>
  Claim C4. For every text and every shift, \<^verbatim>\<open>caesar_shift\<close> of
  caesar\_freq\_decrypt.py returns a text of the same length; at every position a character
  that is not an alphabetic letter is unchanged, and a letter keeps its case.

  The guards of \<^verbatim>\<open>shift_char\<close> are \<^verbatim>\<open>islower\<close> and \<^verbatim>\<open>isupper\<close>, and beyond code
  point 255 they accept characters that are not letters. U+2160, the Roman numeral one,
  is such a character: \<^verbatim>\<open>islower\<close> is False, \<^verbatim>\<open>isupper\<close> is True and \<^verbatim>\<open>isalpha\<close> is
  False for it. With shift 3 the code turns it into the letter G, though the module's
  docstring says that non-letters are preserved.
\<close>

theorem shift_char_roman_numeral_one: "shift_char_cp False True 8544 3 = ord CHR ''G''"
  by (simp add: shift_char_cp_def N_def ord_def)

subsection \<open>C5: every shift value is accepted\<close>

text \<open>
  Claim C5. For every character and every integer shift, \<^verbatim>\<open>shift_char\<close> returns a
  result without raising, and the shift counts modulo 26.

  The shift does count modulo 26 in both scripts (\<open>shift_char_mod\<close>,
  \<open>bf_shift_char_mod\<close>), and \<^verbatim>\<open>shift_char\<close> of caesar\_freq\_decrypt.py never
  raises. \<^verbatim>\<open>shift_char\<close> of caesar\_bruteforce.py raises \<^verbatim>\<open>ValueError\<close>, whatever the
  shift, on every cased letter outside ASCII (\<open>bf_shift_char_non_ascii_cased\<close>), such as
  e with acute accent, U+00E9.
\<close>

theorem bf_shift_char_e_acute: "bf_shift_char (CHR 0xE9) shift = Inl ValueError"
  by (rule bf_shift_char_non_ascii_cased) (simp add: e_acute)

subsection \<open>C6: input without letters\<close>

text \<open>
  On the code points 0..255, for an input that \<^verbatim>\<open>isalpha\<close> finds no character in, the
  scorer returns the infinity sentinel and raises nothing, the heuristic's list is empty,
  and the ranking is the 26 unchanged candidates with score infinity, in the order of
  their shifts, cut to \<open>top_n\<close>.
\<close>

lemma zero_letter_input_below_256:
  assumes "\<forall>c\<in>set text. \<not> isalpha c"
  shows "chi_squared_score text = Inr PosInf \<and>
    freq_based_candidates text top_n =
      Inr \<lparr>most_freq_guesses = [],
           chi_squared_ranking = slice_to (map (\<lambda>s. (s, PosInf, text)) [0..25]) top_n\<rparr> \<and>
    (0 \<le> top_n \<longrightarrow>
       slice_to (map (\<lambda>s. (s, PosInf, text)) [0..25]) top_n =
         take (nat top_n) (map (\<lambda>s. (s, PosInf, text)) [0..25]) \<and>
       length (slice_to (map (\<lambda>s. (s, PosInf, text)) [0..25]) top_n) = min (nat top_n) 26)"
proof -
  have z: "total_letters text = 0" using assms by (simp add: total_letters_zero_iff)
  then have h: "heuristic_letters text = []" by (simp add: heuristic_letters_def)
  have "freq_based_candidates text top_n =
      Inr \<lparr>most_freq_guesses = [], chi_squared_ranking = ranking text top_n\<rparr>"
    by (simp add: freq_based_candidates_eq h)
  then show ?thesis
    using z assms by (auto simp: chi_squared_score_no_letters ranking_no_letters slice_to_def)
qed

text \<open>
  Claim C6. For every input without alphabetic letters, \<^verbatim>\<open>chi_squared_score\<close> returns
  positive infinity rather than a fault, the most-frequent-letter heuristic gives the
  empty list, and the chi-squared ranking returns the candidates with score infinity.

  The first two parts hold of the code for every input: both rest on the total of
  \<^verbatim>\<open>count_letters\<close> being 0. The third does not. The one-character input U+2160, the
  Roman numeral one, has no alphabetic character, but \<^verbatim>\<open>isupper\<close> is True for it and
  \<^verbatim>\<open>caesar_shift\<close> turns it into a letter A-Z for every shift: the candidate of shift 1
  is the text E, whose total is 1, so line 51 does not return the sentinel for it and the
  ranking holds candidates with finite scores.
\<close>

theorem zero_letter_roman_numeral_one:
  "shift_char_cp False True 8544 1 = ord CHR ''E'' \<and> snd (count_letters ''E'') = 1"
proof -
  have "snd (count_letters ''E'') = 1" by code_simp
  then show ?thesis by (simp add: shift_char_cp_def N_def ord_def)
qed

subsection \<open>C7: the chi-squared ranking\<close>

text \<open>
  Claim C7. For every ciphertext and every non-negative \<open>top_n\<close>, the chi-squared ranking
  that \<^verbatim>\<open>freq_based_candidates\<close> returns is sorted by ascending score, each entry holds
  the shifted text of its shift and that text's score, and the list has min(top_n, 26)
  entries.

  Every ranking the function returns is so (\<open>chi_squared_ranking_returned\<close>), and the
  function returns for every ciphertext without sharp s
  (\<open>candidates_return_without_sharp_s\<close>). For the ciphertext that is the one character
  sharp s (U+00DF) it returns no ranking: \<^verbatim>\<open>upper\<close> turns the letter into the
  two-character string SS, the counter holds that key, and \<^verbatim>\<open>ord\<close> of it raises
  \<^verbatim>\<open>TypeError\<close> in the heuristic, before the ranking is computed.
\<close>

theorem ranker_sharp_s: "freq_based_candidates [CHR 0xDF] top_n = Inl TypeError"
proof -
  have "heuristic_letters [CHR 0xDF] = [[83, 83]]" by code_simp
  then show ?thesis by (simp add: freq_based_candidates_eq)
qed

subsection \<open>C8: the most-frequent-letter heuristic\<close>

text \<open>
  Claim C8. For every ciphertext, the heuristic's list has at most 20 entries and no two
  entries with the same ciphertext letter and target letter, and in every entry the shift
  is (target - ciphertext letter) mod 26 and the plaintext is the ciphertext shifted by it.

  Every list the function returns is so (\<open>most_freq_guesses_returned\<close>). For the
  ciphertext of the two characters a and sharp s (U+00DF) the most common keys are A and
  the two-character string SS; the ten entries for A are made, then \<^verbatim>\<open>ord\<close> of SS raises
  \<^verbatim>\<open>TypeError\<close> and no list is returned.
\<close>

theorem heuristic_a_sharp_s:
  "map fst (most_common (fst (count_letters [CHR ''a'', CHR 0xDF]))) = [[65], [83, 83]] \<and>
   freq_based_candidates [CHR ''a'', CHR 0xDF] top_n = Inl TypeError"
proof -
  have k: "map fst (most_common (fst (count_letters [CHR ''a'', CHR 0xDF]))) = [[65], [83, 83]]"
    by code_simp
  have "heuristic_letters [CHR ''a'', CHR 0xDF] = [[65], [83, 83]]" by code_simp
  then have "freq_based_candidates [CHR ''a'', CHR 0xDF] top_n = Inl TypeError"
    by (simp add: freq_based_candidates_eq)
  with k show ?thesis by simp
qed

subsection \<open>C9: where the cap of 20 candidates cuts the list\<close>

text \<open>
  Claim C9 says that for some ciphertext the heuristic stops in the middle of one
  ciphertext letter's ten targets, so that the length of the list is not a multiple of 10.
  No ciphertext does that: the cap is tested after the inner loop over the ten targets.
\<close>

theorem heuristic_never_cut_within_letter:
  "\<not> (\<exists>ciphertext top_n r.
        freq_based_candidates ciphertext top_n = Inr r \<and>
        \<not> 10 dvd length (most_freq_guesses r))"
  using most_freq_guesses_length by fastforce

text \<open>
  Claim C9, amended. Whenever \<^verbatim>\<open>freq_based_candidates\<close> returns, the heuristic's list
  is made of whole blocks of ten entries, one block for each of the (at most two) most
  frequent ciphertext letters, in that order: the list is cut at a letter boundary, and
  its length is 0, 10 or 20.
\<close>

theorem heuristic_whole_blocks:
  assumes "freq_based_candidates ciphertext top_n = Inr r"
  shows "most_freq_guesses r = concat (map (mf_block ciphertext) (heuristic_letters ciphertext)) \<and>
    length (most_freq_guesses r) = 10 * length (heuristic_letters ciphertext) \<and>
    length (most_freq_guesses r) \<in> {0, 10, 20}"
proof -
  have "length (heuristic_letters ciphertext) = 0 \<or> length (heuristic_letters ciphertext) = 1 \<or>
    length (heuristic_letters ciphertext) = 2"
    using heuristic_letters_length [of ciphertext] by linarith
  then have "10 * length (heuristic_letters ciphertext) \<in> {0, 10, 20}" by auto
  then show ?thesis
    using candidates_returned(2) [OF assms] most_freq_guesses_length [OF assms] by simp
qed

theorem heuristic_whole_blocks_witness:
  "\<exists>r. freq_based_candidates ''Khoor'' 3 = Inr r \<and> length (most_freq_guesses r) = 20"
proof -
  have k: "heuristic_letters ''Khoor'' = [[79], [75]]" by code_simp
  obtain r where r: "freq_based_candidates ''Khoor'' 3 = Inr r"
    by (simp add: freq_based_candidates_eq k)
  from heuristic_whole_blocks [OF r]
  have "length (most_freq_guesses r) = 10 * length (heuristic_letters ''Khoor'')" by blast
  then have "length (most_freq_guesses r) = 20" by (simp add: k)
  with r show ?thesis by blast
qed

subsection \<open>C10: the two shift transforms agree on ASCII\<close>

text \<open>
  Claim C10. For every ASCII string and every integer shift, \<^verbatim>\<open>caesar_shift\<close> of
  caesar\_bruteforce.py (alphabet lookup) returns, without raising, what
  \<^verbatim>\<open>caesar_shift\<close> of caesar\_freq\_decrypt.py (character arithmetic) returns.
\<close>

theorem caesar_shift_agree_ascii:
  assumes "\<forall>ch\<in>set text. ord ch < 128"
  shows "bf_caesar_shift text shift = Inr (caesar_shift text shift)"
  using assms by (intro bf_caesar_shift_ascii_cased) (simp add: ascii_cased_iff)

theorem caesar_shift_agree_ascii_witness:
  "list_all (\<lambda>ch. ord ch < 128) ''Khoor, Zruog!'' \<and>
   bf_caesar_shift ''Khoor, Zruog!'' (- 3) = Inr ''Hello, World!'' \<and>
   caesar_shift ''Khoor, Zruog!'' (- 3) = ''Hello, World!''"
proof -
  have h: "\<forall>ch\<in>set ''Khoor, Zruog!''. ord ch < 128" by (simp add: ord_def)
  have c: "caesar_shift ''Khoor, Zruog!'' (- 3) = ''Hello, World!''" by code_simp
  show ?thesis using h c caesar_shift_agree_ascii [OF h, of "- 3"] by (simp add: list_all_iff)
qed

end
